theory Spec2Isabelle
  imports Main "HOL-Library.Multiset"
begin

section \<open>Strings\<close>

text \<open>
  A JavaScript string is modelled as a \<^typ>\<open>string\<close> (a list of 8-bit characters).  The
  library functions of \<open>String.prototype\<close> that the code calls are written out for the
  ASCII range: white space is tab, line feed, vertical tab, form feed, carriage return
  and space; \<open>toLowerCase\<close> maps \<open>A\<close>..\<open>Z\<close> to \<open>a\<close>..\<open>z\<close>.
\<close>

definition isWhiteSpace :: "char \<Rightarrow> bool" where
  "isWhiteSpace c = (c \<in> set [CHR 0x09, CHR 0x0A, CHR 0x0B, CHR 0x0C, CHR 0x0D, CHR 0x20])"

text \<open>\<open>s.trim()\<close>: white space removed from both ends.\<close>

definition trim :: "string \<Rightarrow> string" where
  "trim s = rev (dropWhile isWhiteSpace (rev (dropWhile isWhiteSpace s)))"

text \<open>\<open>s.startsWith('.')\<close>.\<close>

definition startsWithDot :: "string \<Rightarrow> bool" where
  "startsWithDot s = (case s of [] \<Rightarrow> False | c # _ \<Rightarrow> c = CHR ''.'')"

text \<open>\<open>s.includes(sub)\<close> (named \<open>includesStr\<close> here): \<open>sub\<close> occurs in \<open>s\<close> as a contiguous run.\<close>

fun isPrefixOf :: "string \<Rightarrow> string \<Rightarrow> bool" where
  "isPrefixOf [] s = True"
| "isPrefixOf (c # cs) [] = False"
| "isPrefixOf (c # cs) (d # ds) = (c = d \<and> isPrefixOf cs ds)"

fun includesStr :: "string \<Rightarrow> string \<Rightarrow> bool" where
  "includesStr [] sub = (sub = [])"
| "includesStr (c # cs) sub = (isPrefixOf sub (c # cs) \<or> includesStr cs sub)"

definition lowerChar :: "char \<Rightarrow> char" where
  "lowerChar c =
     (let n = (of_char c :: nat) in if 65 \<le> n \<and> n \<le> 90 then char_of (n + 32) else c)"

definition toLowerCase :: "string \<Rightarrow> string" where
  "toLowerCase s = map lowerChar s"

text \<open>
  \<open>s.split(/\r?\n/)\<close>: the separators are the line feeds, each together with a carriage
  return right before it.  The result always has at least one element; the empty string
  splits into one empty line.
\<close>

fun consHead :: "char \<Rightarrow> string list \<Rightarrow> string list" where
  "consHead c [] = [[c]]"
| "consHead c (l # ls) = (c # l) # ls"

fun splitLines :: "string \<Rightarrow> string list" where
  "splitLines [] = [[]]"
| "splitLines (c # cs) =
     (if c = CHR 0x0A then [] # splitLines cs
      else if c = CHR 0x0D then
        (case cs of
           [] \<Rightarrow> [[c]]
         | d # ds \<Rightarrow> if d = CHR 0x0A then [] # splitLines ds else consHead c (splitLines cs))
      else consHead c (splitLines cs))"

section \<open>The delimited-record parser (\<open>parseWindowsCSV\<close>)\<close>

text \<open>
  The state of the character loop of \<open>parseWindowsCSV\<close>: the fields finished so far, the
  field being read, and whether the scan is inside a quoted span.
\<close>

record scan =
  parts :: "string list"
  current :: string
  inQuotes :: bool

text \<open>One iteration of \<open>for (let i = 0; i < line.length; i++)\<close>.\<close>

definition scanChar :: "scan \<Rightarrow> char \<Rightarrow> scan" where
  "scanChar s char =
     (if char = CHR 0x22 then s\<lparr>inQuotes := \<not> inQuotes s\<rparr>
      else if char = CHR '','' \<and> \<not> inQuotes s then
        s\<lparr>parts := parts s @ [trim (current s)], current := []\<rparr>
      else s\<lparr>current := current s @ [char]\<rparr>)"

fun scanChars :: "scan \<Rightarrow> string \<Rightarrow> scan" where
  "scanChars s [] = s"
| "scanChars s (char # rest) = scanChars (scanChar s char) rest"

definition scanStart :: scan where
  "scanStart = \<lparr>parts = [], current = [], inQuotes = False\<rparr>"

text \<open>The body of the \<open>map\<close> callback: the loop, then the last field is pushed.\<close>

definition parseLine :: "string \<Rightarrow> string list" where
  "parseLine line = (let s = scanChars scanStart line in parts s @ [trim (current s)])"

text \<open>The \<open>filter\<close> callback \<open>parts.length > 0 && parts[0]\<close>: a non-empty first field.\<close>

definition keepRow :: "string list \<Rightarrow> bool" where
  "keepRow ps = (case ps of [] \<Rightarrow> False | p # _ \<Rightarrow> p \<noteq> [])"

definition parseWindowsCSV :: "string \<Rightarrow> string list list" where
  "parseWindowsCSV csvOutput = filter keepRow (map parseLine (splitLines (trim csvOutput)))"

subsection \<open>Notions the parser claims are stated with\<close>

definition isQuote :: "char \<Rightarrow> bool" where
  "isQuote c = (c = CHR 0x22)"

definition isComma :: "char \<Rightarrow> bool" where
  "isComma c = (c = CHR '','')"

text \<open>The number of commas of a line.\<close>

definition commaCount :: "string \<Rightarrow> nat" where
  "commaCount line = length (filter isComma line)"

text \<open>
  A line \<open>before @ '"' # rest\<close> has a trailing unmatched quote at that place when the quotes
  before it pair up (their number is even) and no quote follows it.
\<close>

definition unmatchedQuoteAt :: "string \<Rightarrow> string \<Rightarrow> bool" where
  "unmatchedQuoteAt before rest =
     (even (length (filter isQuote before)) \<and> filter isQuote rest = [])"

text \<open>The quoting of a line is balanced when its quotes pair up.\<close>

definition balancedQuoting :: "string \<Rightarrow> bool" where
  "balancedQuoting line = even (length (filter isQuote line))"

text \<open>
  No comma of the line stands inside a quoted span; \<open>quoted\<close> says whether the line starts
  inside one.
\<close>

fun noQuotedComma :: "bool \<Rightarrow> string \<Rightarrow> bool" where
  "noQuotedComma quoted [] = True"
| "noQuotedComma quoted (c # cs) =
     (if isQuote c then noQuotedComma (\<not> quoted) cs
      else if isComma c then \<not> quoted \<and> noQuotedComma quoted cs
      else noQuotedComma quoted cs)"

section \<open>The process listing (\<open>getRunningProcesses\<close>)\<close>

text \<open>
  The shell commands the code runs are kept symbolic, and what running one gives is a
  parameter of the model (\<open>execAsync\<close>): the standard output, or a failure (command not
  found, access denied, timeout, non-zero exit).  Both files define \<open>runWindowsCommand\<close>:
  it returns the trimmed output or throws, and the messages it throws with are one error
  here.
\<close>

datatype command =
    Tasklist  \<comment> \<open>\<open>tasklist /fo csv /nh\<close>\<close>
  | EsSearch int string  \<comment> \<open>\<open>es.exe -n ${maxResults} -size -date-modified "${query}"\<close>\<close>

datatype error =
    ExecError  \<comment> \<open>what \<open>execAsync\<close> rejects with\<close>
  | CommandFailed  \<comment> \<open>\<open>Command failed: ...\<close>, thrown by \<open>runWindowsCommand\<close>\<close>
  | RetrieveFailed  \<comment> \<open>\<open>Failed to retrieve process list: ...\<close>\<close>

type_synonym shell = "command \<Rightarrow> error + string"

definition runWindowsCommand :: "shell \<Rightarrow> command \<Rightarrow> error + string" where
  "runWindowsCommand execAsync cmd =
     (case execAsync cmd of
        Inl e \<Rightarrow> Inl CommandFailed
      | Inr stdout \<Rightarrow> Inr (trim stdout))"

datatype ProcessStatus = Running | Suspended | Unknown

text \<open>The interface \<open>WindowsProcess\<close>; its field \<open>name\<close> is \<open>pname\<close> here.\<close>

record WindowsProcess =
  pname :: string
  pid :: string
  sessionName :: string
  sessionNumber :: string
  memUsage :: string
  status :: "ProcessStatus option"

text \<open>\<open>row[i] || ""\<close>: the field, or the empty string where the row has no such field.\<close>

definition fieldOr :: "string list \<Rightarrow> nat \<Rightarrow> string" where
  "fieldOr row i = (if i < length row then row ! i else [])"

definition toProcess :: "string list \<Rightarrow> WindowsProcess" where
  "toProcess row =
     \<lparr>pname = fieldOr row 0, pid = fieldOr row 1, sessionName = fieldOr row 2,
      sessionNumber = fieldOr row 3, memUsage = fieldOr row 4, status = Some Running\<rparr>"

definition getRunningProcesses :: "shell \<Rightarrow> error + WindowsProcess list" where
  "getRunningProcesses execAsync =
     (case runWindowsCommand execAsync Tasklist of
        Inl e \<Rightarrow> Inl RetrieveFailed
      | Inr output \<Rightarrow>
          Inr (filter (\<lambda>process. pname process \<noteq> [] \<and> pid process \<noteq> [])
                 (map toProcess (parseWindowsCSV output))))"

text \<open>A parsed row is well formed when it has a name field and a pid field, neither empty.\<close>

definition wellFormedRow :: "string list \<Rightarrow> bool" where
  "wellFormedRow row = (2 \<le> length row \<and> row ! 0 \<noteq> [] \<and> row ! 1 \<noteq> [])"

section \<open>The file search\<close>

subsection \<open>The host: Node's \<open>fs\<close> and \<open>path\<close> modules, and the shell\<close>

text \<open>
  An entry of \<open>fs.readdir(dirPath, { withFileTypes: true })\<close>: its name, and what
  \<open>entry.isDirectory()\<close> and \<open>entry.isFile()\<close> answer.
\<close>

record Dirent =
  d_name :: string
  d_isDirectory :: bool
  d_isFile :: bool

text \<open>A JavaScript \<open>Date\<close>: a time in milliseconds, or the invalid date.\<close>

datatype Date = DateAt int | InvalidDate

text \<open>What the code reads of \<open>fs.stat(path)\<close>.\<close>

record Stats =
  st_size :: nat
  st_mtime :: Date
  st_isDirectory :: bool

datatype FileType = File | Directory

text \<open>The interface \<open>FileItem\<close>; its fields \<open>size\<close> and \<open>type\<close> are \<open>fsize\<close> and \<open>ftype\<close> here.\<close>

record FileItem =
  path :: string
  name :: string
  fsize :: int
  modified :: Date
  ftype :: FileType
  extension :: "string option"
  isHidden :: bool

text \<open>
  The library calls of the search are parameters of the model.  \<open>readdir\<close> and \<open>stat\<close>
  give \<open>None\<close> where the promise rejects (permission denied, no such entry); the file
  system does not change during one search.  \<open>join\<close>, \<open>basename\<close> and \<open>extname\<close> are
  those of \<open>path\<close>; \<open>parseInt\<close> gives \<open>None\<close> for \<open>NaN\<close>; \<open>parseDate\<close> is \<open>new Date(s)\<close>;
  \<open>exec\<close> is what running a shell command gives.
\<close>

record host =
  readdir :: "string \<Rightarrow> Dirent list option"
  stat :: "string \<Rightarrow> Stats option"
  join :: "string \<Rightarrow> string \<Rightarrow> string"
  basename :: "string \<Rightarrow> string"
  extname :: "string \<Rightarrow> string"
  parseInt :: "string \<Rightarrow> int option"
  parseDate :: "string \<Rightarrow> Date"
  exec :: shell

subsection \<open>The recursive walk (\<open>searchDirectory\<close>, \<open>searchFileSystem\<close>)\<close>

text \<open>\<open>excludePatterns.some(pattern => entry.name.includes(pattern))\<close>.\<close>

definition excluded :: "string list \<Rightarrow> Dirent \<Rightarrow> bool" where
  "excluded excludePatterns entry =
     list_ex (\<lambda>pattern. includesStr (d_name entry) pattern) excludePatterns"

text \<open>
  The block \<open>if (entry.name.toLowerCase().includes(query)) { try { ... results.push(...) }
  catch { ... } }\<close> of the loop body, as the list of the items it pushes: none when the
  name does not match or \<open>fs.stat\<close> fails, one otherwise (\<open>toFileItem\<close> is the object
  literal pushed).
\<close>

definition toFileItem :: "host \<Rightarrow> string \<Rightarrow> Dirent \<Rightarrow> Stats \<Rightarrow> FileItem" where
  "toFileItem h dirPath entry stats =
     \<lparr>path = join h dirPath (d_name entry), name = d_name entry,
      fsize = int (st_size stats), modified = st_mtime stats,
      ftype = (if d_isDirectory entry then Directory else File),
      extension =
        (if d_isFile entry then Some (toLowerCase (extname h (d_name entry))) else None),
      isHidden = startsWithDot (d_name entry)\<rparr>"

definition matchItem :: "host \<Rightarrow> string \<Rightarrow> Dirent \<Rightarrow> string \<Rightarrow> FileItem list" where
  "matchItem h dirPath entry query =
     (if includesStr (toLowerCase (d_name entry)) query then
        (case stat h (join h dirPath (d_name entry)) of
           None \<Rightarrow> []
         | Some stats \<Rightarrow> [toFileItem h dirPath entry stats])
      else [])"

text \<open>
  \<open>searchDirectory\<close>, with the array \<open>results\<close> it pushes to passed in and returned, and
  its loop \<open>for (const entry of entries)\<close> as \<open>searchEntries\<close>.  A failing \<open>fs.readdir\<close> is
  caught and leaves \<open>results\<close> as it is; nothing else in the \<open>try\<close> block throws.
  \<open>maxResults\<close> is a JavaScript number that the caller parsed with \<open>parseInt\<close>, so an
  integer of either sign.
\<close>

function searchDirectory ::
    "host \<Rightarrow> string \<Rightarrow> string \<Rightarrow> FileItem list \<Rightarrow> int \<Rightarrow> bool \<Rightarrow> string list \<Rightarrow> nat \<Rightarrow> FileItem list"
  and searchEntries ::
    "host \<Rightarrow> string \<Rightarrow> Dirent list \<Rightarrow> string \<Rightarrow> FileItem list \<Rightarrow> int \<Rightarrow> bool \<Rightarrow> string list \<Rightarrow> nat
      \<Rightarrow> FileItem list"
where
  "searchDirectory h dirPath query results maxResults includeHidden excludePatterns depth =
     (if depth > 5 \<or> int (length results) \<ge> maxResults then results
      else
        (case readdir h dirPath of
           None \<Rightarrow> results
         | Some entries \<Rightarrow>
             searchEntries h dirPath entries query results maxResults includeHidden
               excludePatterns depth))"
| "searchEntries h dirPath [] query results maxResults includeHidden excludePatterns depth = results"
| "searchEntries h dirPath (entry # entries) query results maxResults includeHidden excludePatterns
     depth =
     (if int (length results) \<ge> maxResults then results
      else if startsWithDot (d_name entry) \<and> \<not> includeHidden then
        searchEntries h dirPath entries query results maxResults includeHidden excludePatterns depth
      else if excluded excludePatterns entry then
        searchEntries h dirPath entries query results maxResults includeHidden excludePatterns depth
      else if d_isDirectory entry \<and> \<not> startsWithDot (d_name entry) then
        searchEntries h dirPath entries query
          (searchDirectory h (join h dirPath (d_name entry)) query
             (results @ matchItem h dirPath entry query) maxResults includeHidden excludePatterns
             (depth + 1))
          maxResults includeHidden excludePatterns depth
      else
        searchEntries h dirPath entries query (results @ matchItem h dirPath entry query)
          maxResults includeHidden excludePatterns depth)"
  by pat_completeness auto
termination
  by (relation "inv_image (less_than <*lex*> less_than)
        (\<lambda>x. case x of
           Inl (h, dirPath, query, results, maxResults, includeHidden, excludePatterns, depth) \<Rightarrow>
             (if depth > 5 then 0 else 2 * (6 - depth) + 1, 0)
         | Inr (h, dirPath, entries, query, results, maxResults, includeHidden, excludePatterns, depth) \<Rightarrow>
             (2 * (6 - depth), length entries + 1))")
     auto

declare searchDirectory.simps [simp del]

text \<open>\<open>xs.slice(0, e)\<close>: a negative \<open>e\<close> counts from the end.\<close>

definition slice0 :: "'a list \<Rightarrow> int \<Rightarrow> 'a list" where
  "slice0 xs e = (if e < 0 then take (nat (int (length xs) + e)) xs else take (nat e) xs)"

text \<open>
  The loop \<open>for (const searchPath of searchPaths)\<close> of \<open>searchFileSystem\<close>.  Its \<open>catch\<close>
  is never entered, as \<open>searchDirectory\<close> catches what it raises.
\<close>

fun searchPathsLoop ::
    "host \<Rightarrow> string list \<Rightarrow> string \<Rightarrow> FileItem list \<Rightarrow> int \<Rightarrow> bool \<Rightarrow> string list \<Rightarrow> FileItem list"
where
  "searchPathsLoop h [] queryLower files maxResults includeHidden excludePatterns = files"
| "searchPathsLoop h (searchPath # searchPaths) queryLower files maxResults includeHidden
     excludePatterns =
     (let files' =
        searchDirectory h searchPath queryLower files maxResults includeHidden excludePatterns 0
      in if int (length files') \<ge> maxResults then files'
         else searchPathsLoop h searchPaths queryLower files' maxResults includeHidden
                excludePatterns)"

definition searchFileSystem ::
    "host \<Rightarrow> string \<Rightarrow> string list \<Rightarrow> int \<Rightarrow> bool \<Rightarrow> string list \<Rightarrow> FileItem list"
where
  "searchFileSystem h query searchPaths maxResults includeHidden excludePatterns =
     slice0
       (searchPathsLoop h searchPaths (toLowerCase query) [] maxResults includeHidden
          excludePatterns)
       maxResults"

subsection \<open>The accelerated search (\<open>searchWithEverything\<close>) and \<open>searchFiles\<close>\<close>

text \<open>\<open>line.split('\t')\<close>.\<close>

fun splitTabs :: "string \<Rightarrow> string list" where
  "splitTabs [] = [[]]"
| "splitTabs (c # cs) = (if c = CHR 0x09 then [] # splitTabs cs else consHead c (splitTabs cs))"

text \<open>The helper \<open>isDirectory(path)\<close>: false when \<open>fs.stat\<close> fails.\<close>

definition isDirectory :: "host \<Rightarrow> string \<Rightarrow> bool" where
  "isDirectory h p = (case stat h p of None \<Rightarrow> False | Some stats \<Rightarrow> st_isDirectory stats)"

text \<open>The body of \<open>for (const line of lines)\<close>: the items pushed for one line.\<close>

definition everythingItem :: "host \<Rightarrow> string \<Rightarrow> FileItem list" where
  "everythingItem h line =
     (let cols = splitTabs line in
      if length cols \<ge> 3 then
        [\<lparr>path = cols ! 0, name = basename h (cols ! 0),
          fsize = (case parseInt h (cols ! 1) of None \<Rightarrow> 0 | Some n \<Rightarrow> n),
          modified = parseDate h (cols ! 2),
          ftype = (if isDirectory h (cols ! 0) then Directory else File),
          extension = Some (toLowerCase (extname h (cols ! 0))),
          isHidden = startsWithDot (basename h (cols ! 0))\<rparr>]
      else [])"

text \<open>
  \<open>searchWithEverything\<close>.  The result is a sum because the caller wraps the call in
  \<open>try\<close>; the function's own \<open>catch\<close> turns every failure into the empty list.
\<close>

definition searchWithEverything :: "host \<Rightarrow> string \<Rightarrow> int \<Rightarrow> error + FileItem list" where
  "searchWithEverything h query maxResults =
     (case runWindowsCommand (exec h) (EsSearch maxResults query) of
        Inl e \<Rightarrow> Inr []
      | Inr output \<Rightarrow>
          Inr (concat (map (everythingItem h)
                 (filter (\<lambda>line. trim line \<noteq> []) (splitLines output)))))"

text \<open>
  The callback \<open>searchFiles\<close> of the component, with the values it closes over
  (\<open>preferences.useEverything\<close>, \<open>searchPaths\<close>, \<open>maxResults\<close>, \<open>preferences.includeHidden\<close>,
  \<open>excludePatterns\<close>) as arguments.  The result is the field \<open>files\<close> of the \<open>SearchResult\<close>;
  \<open>totalCount\<close> is its length, and \<open>searchTime\<close> (wall-clock time) is left out.
\<close>

definition searchFiles ::
    "host \<Rightarrow> bool \<Rightarrow> string list \<Rightarrow> int \<Rightarrow> bool \<Rightarrow> string list \<Rightarrow> string \<Rightarrow> FileItem list"
where
  "searchFiles h useEverything searchPaths maxResults includeHidden excludePatterns query =
     (if trim query = [] then []
      else if useEverything then
        (case searchWithEverything h query maxResults of
           Inl e \<Rightarrow>
             searchFileSystem h query searchPaths maxResults includeHidden excludePatterns
         | Inr files \<Rightarrow> files)
      else searchFileSystem h query searchPaths maxResults includeHidden excludePatterns)"

subsection \<open>Notions the search claims are stated with\<close>

text \<open>
  An entry is kept when the filters of the search let it through: it is not a hidden
  entry with \<open>includeHidden\<close> off, and its name contains no exclusion pattern.  The walk
  descends into the directories that are not hidden.
\<close>

definition kept :: "bool \<Rightarrow> string list \<Rightarrow> Dirent \<Rightarrow> bool" where
  "kept includeHidden excludePatterns entry =
     (\<not> (startsWithDot (d_name entry) \<and> \<not> includeHidden) \<and> \<not> excluded excludePatterns entry)"

definition descends :: "Dirent \<Rightarrow> bool" where
  "descends entry = (d_isDirectory entry \<and> \<not> startsWithDot (d_name entry))"

text \<open>
  The matches at depth \<open>k\<close> below a directory (the directory itself is depth 0, its
  entries are depth 1): the items of the kept, matching entries that lie \<open>k\<close> levels
  down, through kept directories that are not hidden.
\<close>

fun matchesAt :: "host \<Rightarrow> string \<Rightarrow> string \<Rightarrow> bool \<Rightarrow> string list \<Rightarrow> nat \<Rightarrow> FileItem list" where
  "matchesAt h dirPath query includeHidden excludePatterns 0 = []"
| "matchesAt h dirPath query includeHidden excludePatterns (Suc 0) =
     (case readdir h dirPath of
        None \<Rightarrow> []
      | Some entries \<Rightarrow>
          concat (map (\<lambda>entry.
            if kept includeHidden excludePatterns entry then matchItem h dirPath entry query
            else []) entries))"
| "matchesAt h dirPath query includeHidden excludePatterns (Suc (Suc k)) =
     (case readdir h dirPath of
        None \<Rightarrow> []
      | Some entries \<Rightarrow>
          concat (map (\<lambda>entry.
            if kept includeHidden excludePatterns entry \<and> descends entry then
              matchesAt h (join h dirPath (d_name entry)) query includeHidden excludePatterns (Suc k)
            else []) entries))"

text \<open>
  The search without the cap on the results: the matches down to \<open>n\<close> levels below a
  directory, in the order of a depth-first walk.  \<open>visit\<close> is what one entry adds.
\<close>

definition visit ::
    "(string \<Rightarrow> FileItem list) \<Rightarrow> host \<Rightarrow> string \<Rightarrow> string \<Rightarrow> bool \<Rightarrow> string list \<Rightarrow> Dirent
      \<Rightarrow> FileItem list"
where
  "visit below h dirPath query includeHidden excludePatterns entry =
     (if kept includeHidden excludePatterns entry then
        matchItem h dirPath entry query
        @ (if descends entry then below (join h dirPath (d_name entry)) else [])
      else [])"

fun walk :: "host \<Rightarrow> string \<Rightarrow> string \<Rightarrow> bool \<Rightarrow> string list \<Rightarrow> nat \<Rightarrow> FileItem list" where
  "walk h dirPath query includeHidden excludePatterns 0 = []"
| "walk h dirPath query includeHidden excludePatterns (Suc n) =
     (case readdir h dirPath of
        None \<Rightarrow> []
      | Some entries \<Rightarrow>
          concat (map (visit (\<lambda>p. walk h p query includeHidden excludePatterns n)
                         h dirPath query includeHidden excludePatterns) entries))"

text \<open>How many more items fit under the cap.\<close>

definition room :: "int \<Rightarrow> 'a list \<Rightarrow> nat" where
  "room maxResults results = nat (maxResults - int (length results))"

text \<open>
  The paths of the entries down to \<open>n\<close> levels below a directory: all of them
  (\<open>allPaths\<close>, through every directory), those reached through directories that are
  not hidden (\<open>reachedPaths\<close>), and those that lie strictly inside a hidden directory
  (\<open>insideHidden\<close>).
\<close>

fun allPaths :: "host \<Rightarrow> string \<Rightarrow> nat \<Rightarrow> string list" where
  "allPaths h dirPath 0 = []"
| "allPaths h dirPath (Suc n) =
     (case readdir h dirPath of
        None \<Rightarrow> []
      | Some entries \<Rightarrow>
          concat (map (\<lambda>entry.
            join h dirPath (d_name entry)
            # (if d_isDirectory entry then allPaths h (join h dirPath (d_name entry)) n else []))
            entries))"



text \<open>
  The entries down to \<open>n\<close> levels below a directory, each path with its depth; the
  entries of the directory itself are one level deeper than \<open>depth\<close>, the depth of the
  directory.
\<close>

fun entryDepths :: "host \<Rightarrow> string \<Rightarrow> nat \<Rightarrow> nat \<Rightarrow> (string \<times> nat) list" where
  "entryDepths h dirPath depth 0 = []"
| "entryDepths h dirPath depth (Suc n) =
     (case readdir h dirPath of
        None \<Rightarrow> []
      | Some entries \<Rightarrow>
          concat (map (\<lambda>entry.
            (join h dirPath (d_name entry), Suc depth)
            # (if d_isDirectory entry
               then entryDepths h (join h dirPath (d_name entry)) (Suc depth) n else []))
            entries))"

text \<open>
  A host on which reading the directory \<open>d\<close> fails, and one on which \<open>d\<close> is an empty
  directory.
\<close>

definition unreadable :: "host \<Rightarrow> string \<Rightarrow> host" where
  "unreadable h d = h\<lparr>readdir := (readdir h)(d := None)\<rparr>"

definition emptied :: "host \<Rightarrow> string \<Rightarrow> host" where
  "emptied h d = h\<lparr>readdir := (readdir h)(d \<mapsto> [])\<rparr>"

subsection \<open>Sample hosts\<close>

text \<open>
  A host given by the listing of its directories: a path that the listing does not name
  cannot be read.  Paths are joined with a slash, and every \<open>stat\<close> succeeds.
\<close>

definition dirEntry :: "string \<Rightarrow> Dirent" where
  "dirEntry n = \<lparr>d_name = n, d_isDirectory = True, d_isFile = False\<rparr>"

definition fileEntry :: "string \<Rightarrow> Dirent" where
  "fileEntry n = \<lparr>d_name = n, d_isDirectory = False, d_isFile = True\<rparr>"

definition slashJoin :: "string \<Rightarrow> string \<Rightarrow> string" where
  "slashJoin d n = d @ ''/'' @ n"

definition lastSegment :: "string \<Rightarrow> string" where
  "lastSegment p = rev (takeWhile (\<lambda>c. c \<noteq> CHR ''/'') (rev p))"

definition dotExt :: "string \<Rightarrow> string" where
  "dotExt p =
     (let n = lastSegment p; e = takeWhile (\<lambda>c. c \<noteq> CHR ''.'') (rev n)
      in if length e + 1 < length n then CHR ''.'' # rev e else [])"

definition decimal :: "string \<Rightarrow> int option" where
  "decimal s =
     (let ds = takeWhile (\<lambda>c. 48 \<le> (of_char c :: nat) \<and> (of_char c :: nat) \<le> 57)
                (dropWhile isWhiteSpace s)
      in if ds = [] then None
         else Some (foldl (\<lambda>a c. 10 * a + (int (of_char c) - 48)) 0 ds))"

definition plainStats :: "bool \<Rightarrow> Stats" where
  "plainStats d = \<lparr>st_size = 0, st_mtime = DateAt 0, st_isDirectory = d\<rparr>"

definition treeHost :: "(string \<times> Dirent list) list \<Rightarrow> shell \<Rightarrow> host" where
  "treeHost listing sh =
     \<lparr>readdir = map_of listing,
      stat = (\<lambda>p. Some (plainStats (p \<in> fst ` set listing))),
      join = slashJoin, basename = lastSegment, extname = dotExt,
      parseInt = decimal, parseDate = (\<lambda>s. if s = [] then InvalidDate else DateAt 0),
      exec = sh\<rparr>"

definition fileItem :: "string \<Rightarrow> string \<Rightarrow> FileItem" where
  "fileItem p n =
     \<lparr>path = p, name = n, fsize = 0, modified = DateAt 0, ftype = File,
      extension = Some [], isHidden = False\<rparr>"

text \<open>
  A chain of directories below the root \<open>R\<close> with a file at depth 5, one at depth 6 and
  one at depth 7.  No shell command succeeds on it.
\<close>

definition deepTree :: host where
  "deepTree = treeHost
     [(''R'', [dirEntry ''d1'']),
      (''R/d1'', [dirEntry ''d2'']),
      (''R/d1/d2'', [dirEntry ''d3'']),
      (''R/d1/d2/d3'', [dirEntry ''d4'']),
      (''R/d1/d2/d3/d4'', [fileEntry ''hit5'', dirEntry ''d5'']),
      (''R/d1/d2/d3/d4/d5'', [fileEntry ''hit6'', dirEntry ''d6'']),
      (''R/d1/d2/d3/d4/d5/d6'', [fileEntry ''hit7''])]
     (\<lambda>cmd. Inl ExecError)"

text \<open>
  A root \<open>R\<close> with a hidden directory, a directory \<open>confdir\<close> holding a hidden file, a
  directory \<open>locked\<close> that cannot be read, and a second root \<open>S\<close>.  On \<open>plainHost\<close> no
  shell command succeeds (\<open>es.exe\<close> is not installed); on \<open>esHost\<close> the search tool
  answers with the one row of \<open>R/.env\<close>.
\<close>

definition sampleListing :: "(string \<times> Dirent list) list" where
  "sampleListing =
     [(''R'', [dirEntry ''.conf'', fileEntry ''conf.txt'', dirEntry ''confdir'',
               dirEntry ''locked'', fileEntry ''zconf'', fileEntry ''.env'']),
      (''R/.conf'', [fileEntry ''conf.ini'']),
      (''R/confdir'', [fileEntry ''.conf.bak'', fileEntry ''conf.json'']),
      (''S'', [fileEntry ''conf.s''])]"

definition plainHost :: host where
  "plainHost = treeHost sampleListing (\<lambda>cmd. Inl ExecError)"

definition esHost :: host where
  "esHost = treeHost sampleListing
     (\<lambda>cmd. Inr (''R/.env'' @ [CHR 0x09] @ ''12'' @ [CHR 0x09] @ ''2024-01-01''))"

text \<open>
  A process listing of four lines; the second has no pid field, the third an empty one.
\<close>

definition tasklistOutput :: string where
  \<open>tasklistOutput =
     ''"a.exe","1","Console","1","10 K"'' @ [CHR 0x0D, CHR 0x0A] @ ''"b.exe"'' @ [CHR 0x0A]
     @ ''"c.exe",""'' @ [CHR 0x0A] @ ''"d.exe","4"''\<close>

section \<open>Properties of the parser\<close>

text \<open>
  C5: the single line \<open>"a,b",c,d\<close> parses to exactly the one row \<open>["a,b", "c", "d"]\<close>:
  the comma inside the quotes does not separate, and the quotes are stripped.
\<close>

theorem parse_quoted_comma:
  \<open>parseWindowsCSV ''"a,b",c,d'' = [[''a,b'', ''c'', ''d'']]\<close>
  by (simp add: parseWindowsCSV_def parseLine_def scanStart_def scanChar_def keepRow_def
      trim_def isWhiteSpace_def)

lemma scanChars_append: "scanChars s (xs @ ys) = scanChars (scanChars s xs) ys"
  by (induction xs arbitrary: s) simp_all

lemma scanChars_inQuotes:
  "inQuotes (scanChars s xs) = (inQuotes s \<noteq> odd (length (filter isQuote xs)))"
  by (induction xs arbitrary: s) (auto simp: scanChar_def isQuote_def)

lemma scanChars_quoted_span:
  "inQuotes s \<Longrightarrow> filter isQuote rest = [] \<Longrightarrow> scanChars s rest = s\<lparr>current := current s @ rest\<rparr>"
proof (induction rest arbitrary: s)
  case Nil
  then show ?case by simp
next
  case (Cons c rest)
  from Cons.prems(2) have nc: "\<not> isQuote c" and r: "filter isQuote rest = []"
    by (cases "isQuote c"; simp)+
  from nc have c: "c \<noteq> CHR 0x22"
    by (simp add: isQuote_def)
  have "scanChar s c = s\<lparr>current := current s @ [c]\<rparr>"
    using c Cons.prems(1) by (simp add: scanChar_def)
  then show ?case using Cons.IH [of "s\<lparr>current := current s @ [c]\<rparr>"] Cons.prems(1) r
    by simp
qed

lemma scanChars_parts_count:
  "noQuotedComma (inQuotes s) cs \<Longrightarrow>
   length (parts (scanChars s cs)) = length (parts s) + length (filter isComma cs)"
proof (induction cs arbitrary: s)
  case Nil
  then show ?case by simp
next
  case (Cons c cs)
  then show ?case
    by (cases "isQuote c"; cases "isComma c")
       (auto simp: scanChar_def isQuote_def isComma_def)
qed

text \<open>
  A line whose quoting is not balanced has a trailing unmatched quote: its last quote.
\<close>

lemma unbalanced_line_has_unmatched_quote:
  assumes "\<not> balancedQuoting line"
  shows "\<exists>before rest. line = before @ CHR 0x22 # rest \<and> unmatchedQuoteAt before rest"
proof -
  from assms have "filter isQuote line \<noteq> []"
    by (auto simp: balancedQuoting_def)
  then obtain c where "c \<in> set line" "isQuote c"
    by (auto simp: filter_empty_conv)
  then have "CHR 0x22 \<in> set line"
    by (simp add: isQuote_def)
  then obtain before rest where l: "line = before @ CHR 0x22 # rest" and r: "CHR 0x22 \<notin> set rest"
    by (auto dest: split_list_last)
  from r have nq: "filter isQuote rest = []"
    by (auto simp: filter_empty_conv isQuote_def)
  from assms have "odd (length (filter isQuote before) + 1)"
    unfolding l by (simp add: balancedQuoting_def nq isQuote_def)
  then have "even (length (filter isQuote before))"
    by simp
  with nq l show ?thesis
    unfolding unmatchedQuoteAt_def by blast
qed

text \<open>
  C6: when a line has a trailing unmatched quote, \<open>inQuotes\<close> is true at every later
  position of the line, so the commas after the quote do not separate: the rest of the
  line, commas included, is appended to the field being read, which is the line's last.
\<close>

theorem unmatched_quote_swallows_rest:
  assumes "unmatchedQuoteAt before rest"
  shows "(\<forall>k \<le> length rest. inQuotes (scanChars scanStart (before @ CHR 0x22 # take k rest)))
       \<and> parseLine (before @ CHR 0x22 # rest) =
           parts (scanChars scanStart before) @ [trim (current (scanChars scanStart before) @ rest)]"
proof -
  let ?s = "scanChars scanStart before"
  from assms have ev: "even (length (filter isQuote before))" and nq: "filter isQuote rest = []"
    by (simp_all add: unmatchedQuoteAt_def)
  have out: "\<not> inQuotes ?s"
    using ev by (simp add: scanChars_inQuotes scanStart_def)
  have q: "scanChar ?s (CHR 0x22) = ?s\<lparr>inQuotes := True\<rparr>"
    using out by (simp add: scanChar_def)
  have tk: "filter isQuote (take k rest) = []" for k
    using nq by (metis filter_empty_conv in_set_takeD)
  have st: "scanChars scanStart (before @ CHR 0x22 # take k rest)
        = ?s\<lparr>inQuotes := True, current := current ?s @ take k rest\<rparr>" for k
    using scanChars_quoted_span [of "?s\<lparr>inQuotes := True\<rparr>" "take k rest"] tk q
    by (simp add: scanChars_append)
  have a: "\<forall>k \<le> length rest. inQuotes (scanChars scanStart (before @ CHR 0x22 # take k rest))"
    by (simp add: st)
  have b: "parseLine (before @ CHR 0x22 # rest) = parts ?s @ [trim (current ?s @ rest)]"
    using st [of "length rest"] by (simp add: parseLine_def)
  from a b show ?thesis by blast
qed

theorem unmatched_quote_swallows_rest_witness:
  \<open>unmatchedQuoteAt ''a,'' ''b,c'' \<and> parseLine ''a,"b,c'' = [''a'', ''b,c'']\<close>
proof -
  have h: \<open>unmatchedQuoteAt ''a,'' ''b,c''\<close>
    by (simp add: unmatchedQuoteAt_def isQuote_def)
  have \<open>parseLine (''a,'' @ CHR 0x22 # ''b,c'') = [''a'', ''b,c'']\<close>
    using unmatched_quote_swallows_rest [OF h]
    by (simp add: scanStart_def scanChar_def trim_def isWhiteSpace_def)
  then show ?thesis using h by simp
qed

lemma parseLine_field_count:
  "noQuotedComma False line \<Longrightarrow> length (parseLine line) = commaCount line + 1"
  using scanChars_parts_count [of scanStart line]
  by (simp add: parseLine_def scanStart_def Let_def commaCount_def)

text \<open>
  C7 (amended): when the quoting of every line is balanced and no comma stands inside a
  quoted span, every row of the result has as many fields as its line has commas, plus
  one; the rows are those of the lines that the parser keeps (\<open>keepRow\<close>), in order, and a
  blank line is not kept.  Consecutive commas give empty fields (the witness).
\<close>

theorem field_count_kept_lines:
  assumes "\<forall>line \<in> set (splitLines (trim input)). balancedQuoting line \<and> noQuotedComma False line"
  shows "map length (parseWindowsCSV input) =
         map (\<lambda>line. commaCount line + 1)
           (filter (\<lambda>line. keepRow (parseLine line)) (splitLines (trim input)))"
proof -
  have "map length (filter keepRow (map parseLine ls)) =
        map (\<lambda>line. commaCount line + 1) (filter (\<lambda>line. keepRow (parseLine line)) ls)"
    if "\<forall>line \<in> set ls. noQuotedComma False line" for ls
    using that by (induction ls) (simp_all add: parseLine_field_count)
  then show ?thesis
    using assms by (simp add: parseWindowsCSV_def)
qed

theorem field_count_kept_lines_witness:
  \<open>balancedQuoting ''"a",,b'' \<and> noQuotedComma False ''"a",,b''
   \<and> parseWindowsCSV ''"a",,b'' = [[''a'', [], ''b'']]
   \<and> map length (parseWindowsCSV ''"a",,b'') = [3]\<close>
proof -
  have sl: \<open>splitLines (trim ''"a",,b'') = [''"a",,b'']\<close>
    by (simp add: trim_def isWhiteSpace_def)
  have h: \<open>balancedQuoting ''"a",,b'' \<and> noQuotedComma False ''"a",,b''\<close>
    by (simp add: balancedQuoting_def isQuote_def isComma_def)
  have p: \<open>parseLine ''"a",,b'' = [''a'', [], ''b'']\<close>
    by (simp add: parseLine_def scanStart_def scanChar_def trim_def isWhiteSpace_def)
  have hyp: \<open>\<forall>line \<in> set (splitLines (trim ''"a",,b'')).
      balancedQuoting line \<and> noQuotedComma False line\<close>
    using h by (simp only: sl list.set ball_simps)
  have n: \<open>map length (parseWindowsCSV ''"a",,b'') = [3]\<close>
    using field_count_kept_lines [OF hyp]
    by (simp add: sl p keepRow_def commaCount_def isComma_def)
  have r: \<open>parseWindowsCSV ''"a",,b'' = [[''a'', [], ''b'']]\<close>
    by (simp add: parseWindowsCSV_def sl p keepRow_def)
  from h r n show ?thesis by blast
qed

text \<open>
  C7 as stated fails: the second of the three lines of this input is blank, so its
  quoting is balanced and it has no comma; the parser gives no row for it, not a row of
  one field.
\<close>

theorem blank_line_dropped:
  "splitLines (trim (''a'' @ [CHR 0x0A, CHR 0x0A] @ ''b'')) = [''a'', [], ''b'']
   \<and> balancedQuoting [] \<and> noQuotedComma False [] \<and> commaCount [] = 0
   \<and> parseWindowsCSV (''a'' @ [CHR 0x0A, CHR 0x0A] @ ''b'') = [[''a''], [''b'']]"
  by (simp add: balancedQuoting_def commaCount_def parseWindowsCSV_def parseLine_def scanStart_def
      scanChar_def keepRow_def trim_def isWhiteSpace_def)

text \<open>
  The same filter drops a line whose first field is empty.
\<close>

lemma empty_first_field_dropped:
  \<open>balancedQuoting '',a'' \<and> noQuotedComma False '',a'' \<and> commaCount '',a'' = 1
   \<and> splitLines (trim '',a'') = ['',a''] \<and> parseWindowsCSV '',a'' = []\<close>
  by (simp add: balancedQuoting_def isQuote_def isComma_def commaCount_def
      parseWindowsCSV_def parseLine_def scanStart_def scanChar_def keepRow_def trim_def isWhiteSpace_def)



section \<open>Properties of the process listing\<close>

lemma filter_map_toProcess:
  "filter (\<lambda>process. pname process \<noteq> [] \<and> pid process \<noteq> []) (map toProcess rows) =
   map toProcess (filter wellFormedRow rows)"
proof (induction rows)
  case Nil
  show ?case by simp
next
  case (Cons row rows)
  have "(pname (toProcess row) \<noteq> [] \<and> pid (toProcess row) \<noteq> []) = wellFormedRow row"
    by (cases row; cases "tl row") (auto simp: toProcess_def fieldOr_def wellFormedRow_def)
  with Cons show ?case by simp
qed

text \<open>
  C8: when the listing command succeeds, \<open>getRunningProcesses\<close> returns the records of the
  well-formed parsed rows, in order; the rows missing the pid field (or the name field)
  are the ones dropped.
\<close>

theorem processes_are_well_formed_rows:
  assumes "execAsync Tasklist = Inr stdout"
  shows "getRunningProcesses execAsync =
     Inr (map toProcess (filter wellFormedRow (parseWindowsCSV (trim stdout))))"
  using assms by (simp add: getRunningProcesses_def runWindowsCommand_def filter_map_toProcess)

theorem processes_are_well_formed_rows_witness:
  \<open>getRunningProcesses (\<lambda>cmd. Inr tasklistOutput) =
     Inr [\<lparr>pname = ''a.exe'', pid = ''1'', sessionName = ''Console'', sessionNumber = ''1'',
           memUsage = ''10 K'', status = Some Running\<rparr>,
          \<lparr>pname = ''d.exe'', pid = ''4'', sessionName = [], sessionNumber = [],
           memUsage = [], status = Some Running\<rparr>]\<close>
proof -
  have t: "trim tasklistOutput = tasklistOutput"
    by (simp add: tasklistOutput_def trim_def isWhiteSpace_def)
  have p: \<open>parseWindowsCSV tasklistOutput =
      [[''a.exe'', ''1'', ''Console'', ''1'', ''10 K''], [''b.exe''], [''c.exe'', []], [''d.exe'', ''4'']]\<close>
    by (simp add: parseWindowsCSV_def t)
       (simp add: tasklistOutput_def parseLine_def scanStart_def scanChar_def keepRow_def
         trim_def isWhiteSpace_def)
  show ?thesis
    using processes_are_well_formed_rows [of "\<lambda>cmd. Inr tasklistOutput" tasklistOutput]
    by (simp add: t p wellFormedRow_def toProcess_def fieldOr_def)
qed

section \<open>Properties of the file search\<close>

subsection \<open>The search is the capped depth-first walk\<close>

lemma room_full: "maxResults \<le> int (length results) \<Longrightarrow> room maxResults results = 0"
  by (simp add: room_def)

lemma room_append_take:
  "room maxResults (results @ take (room maxResults results) xs) = room maxResults results - length xs"
  by (auto simp: room_def min_def)

lemma matchItem_length: "length (matchItem h dirPath entry query) \<le> 1"
  by (simp add: matchItem_def split: option.split)

lemma take_room_matchItem:
  "\<not> maxResults \<le> int (length results) \<Longrightarrow>
   take (room maxResults results) (matchItem h dirPath entry query) = matchItem h dirPath entry query"
  using matchItem_length [of h dirPath entry query] by (simp add: room_def)

lemma take_room_append:
  "(results @ take (room N results) xs) @ take (room N (results @ take (room N results) xs)) ys
   = results @ take (room N results) (xs @ ys)"
  by (simp add: room_append_take)

lemma search_refines_walk:
  "searchDirectory h dirPath query results maxResults includeHidden excludePatterns depth =
     results @ take (room maxResults results)
       (walk h dirPath query includeHidden excludePatterns (6 - depth))"
  "searchEntries h dirPath entries query results maxResults includeHidden excludePatterns depth =
     results @ take (room maxResults results)
       (concat (map (visit (\<lambda>p. walk h p query includeHidden excludePatterns (5 - depth))
                       h dirPath query includeHidden excludePatterns) entries))"
proof (induction h dirPath query results maxResults includeHidden excludePatterns depth
       and h dirPath entries query results maxResults includeHidden excludePatterns depth
       rule: searchDirectory_searchEntries.induct)
  case (1 h dirPath query results maxResults includeHidden excludePatterns depth)
  show ?case
  proof (cases "depth > 5 \<or> int (length results) \<ge> maxResults")
    case True
    then show ?thesis by (auto simp: room_full searchDirectory.simps)
  next
    case False
    then have d: "6 - depth = Suc (5 - depth)" by arith
    show ?thesis
    proof (cases "readdir h dirPath")
      case None
      with False show ?thesis by (simp add: d searchDirectory.simps)
    next
      case (Some entries)
      with False 1 show ?thesis by (simp add: d searchDirectory.simps)
    qed
  qed
next
  case (2 h dirPath query results maxResults includeHidden excludePatterns depth)
  show ?case by simp
next
  case (3 h dirPath entry entries query results maxResults includeHidden excludePatterns depth)
  let ?below = "\<lambda>p. walk h p query includeHidden excludePatterns (5 - depth)"
  let ?v = "visit ?below h dirPath query includeHidden excludePatterns"
  show ?case
  proof (cases "int (length results) \<ge> maxResults")
    case True
    then show ?thesis by (simp add: room_full)
  next
    case nf: False
    show ?thesis
    proof (cases "startsWithDot (d_name entry) \<and> \<not> includeHidden")
      case True
      then have v: "?v entry = []" by (simp add: visit_def kept_def)
      have step: "searchEntries h dirPath (entry # entries) query results maxResults includeHidden
            excludePatterns depth
          = searchEntries h dirPath entries query results maxResults includeHidden
              excludePatterns depth"
        using nf True by auto
      show ?thesis unfolding step 3(1) [OF nf True] by (simp add: v)
    next
      case nh: False
      show ?thesis
      proof (cases "excluded excludePatterns entry")
        case True
        then have v: "?v entry = []" by (simp add: visit_def kept_def)
        have step: "searchEntries h dirPath (entry # entries) query results maxResults
              includeHidden excludePatterns depth
            = searchEntries h dirPath entries query results maxResults includeHidden
                excludePatterns depth"
          using nf nh True by auto
        show ?thesis unfolding step 3(2) [OF nf nh True] by (simp add: v)
      next
        case ne: False
        show ?thesis
        proof (cases "d_isDirectory entry \<and> \<not> startsWithDot (d_name entry)")
          case True
          have v: "?v entry = matchItem h dirPath entry query @ ?below (join h dirPath (d_name entry))"
            using nh ne True by (auto simp: visit_def kept_def descends_def)
          have sub: "searchDirectory h (join h dirPath (d_name entry)) query
                (results @ matchItem h dirPath entry query) maxResults includeHidden
                excludePatterns (depth + 1)
              = results @ take (room maxResults results) (?v entry)"
          proof -
            have "searchDirectory h (join h dirPath (d_name entry)) query
                (results @ matchItem h dirPath entry query) maxResults includeHidden
                excludePatterns (depth + 1)
              = (results @ take (room maxResults results) (matchItem h dirPath entry query))
                @ take (room maxResults
                    (results @ take (room maxResults results) (matchItem h dirPath entry query)))
                  (?below (join h dirPath (d_name entry)))"
              using 3(3) [OF nf nh ne True] by (simp add: take_room_matchItem [OF nf])
            then show ?thesis
              by (simp only: take_room_append v)
          qed
          let ?sd = "searchDirectory h (join h dirPath (d_name entry)) query
                (results @ matchItem h dirPath entry query) maxResults includeHidden
                excludePatterns (depth + 1)"
          have "searchEntries h dirPath (entry # entries) query results maxResults includeHidden
                  excludePatterns depth
                = searchEntries h dirPath entries query ?sd maxResults includeHidden
                    excludePatterns depth"
            using nf nh ne True by auto
          also have "\<dots> = ?sd @ take (room maxResults ?sd) (concat (map ?v entries))"
            by (rule 3(4) [OF nf nh ne True])
          also have "\<dots> = results @ take (room maxResults results) (concat (map ?v (entry # entries)))"
            unfolding sub by (simp only: take_room_append concat.simps list.map)
          finally show ?thesis .
        next
          case False
          have v: "?v entry = matchItem h dirPath entry query"
            using nh ne False by (auto simp: visit_def kept_def descends_def)
          let ?rs = "results @ matchItem h dirPath entry query"
          have rs: "?rs = results @ take (room maxResults results) (?v entry)"
            by (simp add: v take_room_matchItem [OF nf])
          have "searchEntries h dirPath (entry # entries) query results maxResults includeHidden
                  excludePatterns depth
                = searchEntries h dirPath entries query ?rs maxResults includeHidden
                    excludePatterns depth"
            using nf nh ne False by auto
          also have "\<dots> = ?rs @ take (room maxResults ?rs) (concat (map ?v entries))"
            by (rule 3(5) [OF nf nh ne False])
          also have "\<dots> = results @ take (room maxResults results) (concat (map ?v (entry # entries)))"
            unfolding rs by (simp only: take_room_append concat.simps list.map)
          finally show ?thesis .
        qed
      qed
    qed
  qed
qed


lemma searchPathsLoop_walk:
  "searchPathsLoop h searchPaths queryLower files maxResults includeHidden excludePatterns =
     files @ take (room maxResults files)
       (concat (map (\<lambda>root. walk h root queryLower includeHidden excludePatterns 6) searchPaths))"
proof (induction searchPaths arbitrary: files)
  case Nil
  show ?case by simp
next
  case (Cons searchPath searchPaths)
  let ?w = "\<lambda>root. walk h root queryLower includeHidden excludePatterns 6"
  let ?files' = "searchDirectory h searchPath queryLower files maxResults includeHidden
      excludePatterns 0"
  have f: "?files' = files @ take (room maxResults files) (?w searchPath)"
    by (simp add: search_refines_walk(1))
  show ?case
  proof (cases "int (length ?files') \<ge> maxResults")
    case True
    have "searchPathsLoop h (searchPath # searchPaths) queryLower files maxResults includeHidden
        excludePatterns = ?files' @ take (room maxResults ?files') (concat (map ?w searchPaths))"
      using True by (simp add: Let_def room_full)
    also have "\<dots> = files @ take (room maxResults files) (concat (map ?w (searchPath # searchPaths)))"
      unfolding f by (simp only: take_room_append concat.simps list.map)
    finally show ?thesis .
  next
    case False
    have "searchPathsLoop h (searchPath # searchPaths) queryLower files maxResults includeHidden
        excludePatterns = searchPathsLoop h searchPaths queryLower ?files' maxResults includeHidden
        excludePatterns"
      using False by (simp add: Let_def)
    also have "\<dots> = ?files' @ take (room maxResults ?files') (concat (map ?w searchPaths))"
      by (rule Cons.IH)
    also have "\<dots> = files @ take (room maxResults files) (concat (map ?w (searchPath # searchPaths)))"
      unfolding f by (simp only: take_room_append concat.simps list.map)
    finally show ?thesis .
  qed
qed

lemma searchFileSystem_walk:
  "searchFileSystem h query searchPaths maxResults includeHidden excludePatterns =
     take (nat maxResults)
       (concat (map (\<lambda>root. walk h root (toLowerCase query) includeHidden excludePatterns 6)
          searchPaths))"
  by (simp add: searchFileSystem_def searchPathsLoop_walk slice0_def room_def)

subsection \<open>The levels of the walk\<close>

lemma in_walk_Suc:
  "readdir h dirPath = Some entries \<Longrightarrow>
   r \<in> set (walk h dirPath query includeHidden excludePatterns (Suc n)) \<longleftrightarrow>
   (\<exists>entry \<in> set entries. kept includeHidden excludePatterns entry \<and>
      (r \<in> set (matchItem h dirPath entry query) \<or>
       descends entry \<and>
       r \<in> set (walk h (join h dirPath (d_name entry)) query includeHidden excludePatterns n)))"
  by (auto simp: visit_def split: if_splits)

lemma in_matchesAt_1:
  "readdir h dirPath = Some entries \<Longrightarrow>
   r \<in> set (matchesAt h dirPath query includeHidden excludePatterns (Suc 0)) \<longleftrightarrow>
   (\<exists>entry \<in> set entries. kept includeHidden excludePatterns entry \<and>
      r \<in> set (matchItem h dirPath entry query))"
  by (auto split: if_splits)

lemma in_matchesAt_Suc:
  "readdir h dirPath = Some entries \<Longrightarrow>
   r \<in> set (matchesAt h dirPath query includeHidden excludePatterns (Suc (Suc k))) \<longleftrightarrow>
   (\<exists>entry \<in> set entries. kept includeHidden excludePatterns entry \<and> descends entry \<and>
      r \<in> set (matchesAt h (join h dirPath (d_name entry)) query includeHidden excludePatterns
                 (Suc k)))"
  by (auto split: if_splits)

lemma matchesAt_unreadable:
  "readdir h dirPath = None \<Longrightarrow> matchesAt h dirPath query includeHidden excludePatterns k = []"
proof (cases k)
  case 0
  then show ?thesis by simp
next
  case (Suc j)
  assume "readdir h dirPath = None"
  with Suc show ?thesis by (cases j) simp_all
qed

lemma walk_levels:
  "r \<in> set (walk h dirPath query includeHidden excludePatterns n) \<longleftrightarrow>
   (\<exists>k. 1 \<le> k \<and> k \<le> n \<and> r \<in> set (matchesAt h dirPath query includeHidden excludePatterns k))"
proof (induction n arbitrary: dirPath)
  case 0
  show ?case by simp
next
  case (Suc n)
  show ?case
  proof (cases "readdir h dirPath")
    case None
    then show ?thesis by (simp add: matchesAt_unreadable)
  next
    case (Some entries)
    show ?thesis
    proof
      assume "r \<in> set (walk h dirPath query includeHidden excludePatterns (Suc n))"
      then obtain entry where e: "entry \<in> set entries" "kept includeHidden excludePatterns entry"
        and r: "r \<in> set (matchItem h dirPath entry query) \<or>
          descends entry \<and>
          r \<in> set (walk h (join h dirPath (d_name entry)) query includeHidden excludePatterns n)"
        using in_walk_Suc [OF Some] by blast
      from r show "\<exists>k. 1 \<le> k \<and> k \<le> Suc n \<and>
          r \<in> set (matchesAt h dirPath query includeHidden excludePatterns k)"
      proof
        assume "r \<in> set (matchItem h dirPath entry query)"
        with e have "r \<in> set (matchesAt h dirPath query includeHidden excludePatterns (Suc 0))"
          using in_matchesAt_1 [OF Some] by blast
        then show ?thesis by (intro exI [of _ "Suc 0"]) simp
      next
        assume d: "descends entry \<and>
          r \<in> set (walk h (join h dirPath (d_name entry)) query includeHidden excludePatterns n)"
        then obtain k where k: "1 \<le> k" "k \<le> n" and
          m: "r \<in> set (matchesAt h (join h dirPath (d_name entry)) query includeHidden
                excludePatterns k)"
          using Suc.IH by blast
        from k obtain k' where k': "k = Suc k'" by (cases k) auto
        from e d m have "r \<in> set (matchesAt h dirPath query includeHidden excludePatterns (Suc (Suc k')))"
          unfolding k' using in_matchesAt_Suc [OF Some] by blast
        with k show ?thesis unfolding k' by (intro exI [of _ "Suc (Suc k')"]) simp
      qed
    next
      assume "\<exists>k. 1 \<le> k \<and> k \<le> Suc n \<and>
          r \<in> set (matchesAt h dirPath query includeHidden excludePatterns k)"
      then obtain k where k: "1 \<le> k" "k \<le> Suc n" and
        m: "r \<in> set (matchesAt h dirPath query includeHidden excludePatterns k)"
        by blast
      from k(1) obtain k' where k': "k = Suc k'" by (cases k) auto
      show "r \<in> set (walk h dirPath query includeHidden excludePatterns (Suc n))"
      proof (cases k')
        case 0
        with m k' show ?thesis
          using in_matchesAt_1 [OF Some] in_walk_Suc [OF Some] by blast
      next
        case (Suc j)
        with m k' obtain entry where e: "entry \<in> set entries"
          "kept includeHidden excludePatterns entry" "descends entry"
          "r \<in> set (matchesAt h (join h dirPath (d_name entry)) query includeHidden
                excludePatterns (Suc j))"
          using in_matchesAt_Suc [OF Some] by blast
        from k k' Suc have "1 \<le> Suc j" "Suc j \<le> n" by simp_all
        with e(4) have "r \<in> set (walk h (join h dirPath (d_name entry)) query includeHidden
            excludePatterns n)"
          using Suc.IH by blast
        with e show ?thesis using in_walk_Suc [OF Some] by blast
      qed
    qed
  qed
qed

subsection \<open>What the walk returns\<close>

lemma matchItem_None:
  "stat h (join h dirPath (d_name entry)) = None \<Longrightarrow> matchItem h dirPath entry query = []"
  by (simp add: matchItem_def)

lemma matchItem_Some:
  "stat h (join h dirPath (d_name entry)) = Some stats \<Longrightarrow>
   matchItem h dirPath entry query =
     (if includesStr (toLowerCase (d_name entry)) query then [toFileItem h dirPath entry stats]
      else [])"
  by (simp add: matchItem_def)

lemma matchItem_fields:
  assumes "r \<in> set (matchItem h dirPath entry query)"
  shows "path r = join h dirPath (d_name entry) \<and> name r = d_name entry
   \<and> isHidden r = startsWithDot (d_name entry)"
proof (cases "stat h (join h dirPath (d_name entry))")
  case None
  with assms show ?thesis by (simp add: matchItem_None)
next
  case (Some stats)
  with assms have "r = toFileItem h dirPath entry stats"
    by (simp add: matchItem_Some split: if_splits)
  then show ?thesis by (simp add: toFileItem_def)
qed

lemma walk_not_hidden:
  "r \<in> set (walk h dirPath query False excludePatterns n) \<Longrightarrow>
   \<not> startsWithDot (name r) \<and> \<not> isHidden r"
proof (induction n arbitrary: dirPath)
  case 0
  then show ?case by simp
next
  case (Suc n)
  show ?case
  proof (cases "readdir h dirPath")
    case None
    with Suc.prems show ?thesis by simp
  next
    case (Some entries)
    from Suc.prems obtain entry where e: "entry \<in> set entries" "kept False excludePatterns entry"
      and r: "r \<in> set (matchItem h dirPath entry query) \<or>
          descends entry \<and>
          r \<in> set (walk h (join h dirPath (d_name entry)) query False excludePatterns n)"
      using in_walk_Suc [OF Some] by blast
    from r show ?thesis
    proof
      assume "r \<in> set (matchItem h dirPath entry query)"
      with e(2) show ?thesis by (auto simp: kept_def dest: matchItem_fields)
    next
      assume "descends entry \<and>
          r \<in> set (walk h (join h dirPath (d_name entry)) query False excludePatterns n)"
      then show ?thesis using Suc.IH by blast
    qed
  qed
qed

lemma in_searchFileSystem:
  "r \<in> set (searchFileSystem h query searchPaths maxResults includeHidden excludePatterns) \<Longrightarrow>
   \<exists>root \<in> set searchPaths.
     r \<in> set (walk h root (toLowerCase query) includeHidden excludePatterns 6)"
  by (auto simp: searchFileSystem_walk dest: in_set_takeD)

lemma searchFileSystem_uncut:
  assumes "length (searchFileSystem h query searchPaths maxResults includeHidden excludePatterns)
           < nat maxResults"
  shows "searchFileSystem h query searchPaths maxResults includeHidden excludePatterns =
         concat (map (\<lambda>root. walk h root (toLowerCase query) includeHidden excludePatterns 6)
           searchPaths)"
  using assms by (simp add: searchFileSystem_walk min_def split: if_splits)

lemma matchItem_readdir_update:
  "matchItem (h\<lparr>readdir := f\<rparr>) dirPath entry query = matchItem h dirPath entry query"
proof -
  have "toFileItem (h\<lparr>readdir := f\<rparr>) dirPath entry stats = toFileItem h dirPath entry stats"
    for stats
    by (simp add: toFileItem_def)
  then show ?thesis by (simp add: matchItem_def split: option.split)
qed

lemma visit_readdir_update:
  "visit below (h\<lparr>readdir := f\<rparr>) dirPath query includeHidden excludePatterns =
   visit below h dirPath query includeHidden excludePatterns"
  by (rule ext) (simp add: visit_def matchItem_readdir_update)

lemma walk_unreadable_as_empty:
  "walk (unreadable h d) dirPath query includeHidden excludePatterns n =
   walk (emptied h d) dirPath query includeHidden excludePatterns n"
proof (induction n arbitrary: dirPath)
  case 0
  show ?case by simp
next
  case (Suc n)
  have below: "(\<lambda>p. walk (unreadable h d) p query includeHidden excludePatterns n) =
      (\<lambda>p. walk (emptied h d) p query includeHidden excludePatterns n)"
    using Suc.IH by blast
  show ?case
  proof (cases "dirPath = d")
    case True
    then show ?thesis by (simp add: unreadable_def emptied_def)
  next
    case False
    then have rd: "readdir (unreadable h d) dirPath = readdir h dirPath"
      "readdir (emptied h d) dirPath = readdir h dirPath"
      by (simp_all add: unreadable_def emptied_def)
    have v: "visit below (unreadable h d) dirPath query includeHidden excludePatterns =
        visit below (emptied h d) dirPath query includeHidden excludePatterns" for below
      by (simp add: unreadable_def emptied_def visit_readdir_update)
    show ?thesis
      by (cases "readdir h dirPath") (simp_all add: rd below v)
  qed
qed

lemma walk_unreadable_root:
  "readdir h root = None \<Longrightarrow> walk h root query includeHidden excludePatterns n = []"
  by (cases n) simp_all





lemma walk_entryDepths:
  "r \<in> set (walk h dirPath query includeHidden excludePatterns m) \<Longrightarrow> m \<le> n \<Longrightarrow>
   \<exists>j. 1 \<le> j \<and> j \<le> m \<and> (path r, depth + j) \<in> set (entryDepths h dirPath depth n)"
proof (induction m arbitrary: dirPath depth n)
  case 0
  then show ?case by simp
next
  case (Suc m)
  from Suc.prems(2) obtain n' where n: "n = Suc n'" "m \<le> n'" by (cases n) auto
  show ?case
  proof (cases "readdir h dirPath")
    case None
    with Suc.prems show ?thesis by simp
  next
    case (Some entries)
    from Suc.prems(1) obtain entry where e: "entry \<in> set entries"
      and r: "r \<in> set (matchItem h dirPath entry query) \<or>
          descends entry \<and>
          r \<in> set (walk h (join h dirPath (d_name entry)) query includeHidden excludePatterns m)"
      using in_walk_Suc [OF Some] by blast
    from r show ?thesis
    proof
      assume "r \<in> set (matchItem h dirPath entry query)"
      then have "path r = join h dirPath (d_name entry)"
        using matchItem_fields by blast
      with e Some have "(path r, depth + 1) \<in> set (entryDepths h dirPath depth n)"
        unfolding n(1) by force
      then show ?thesis by (intro exI [of _ 1]) simp
    next
      assume d: "descends entry \<and>
          r \<in> set (walk h (join h dirPath (d_name entry)) query includeHidden excludePatterns m)"
      then obtain j where j: "1 \<le> j" "j \<le> m"
        "(path r, Suc depth + j) \<in> set (entryDepths h (join h dirPath (d_name entry)) (Suc depth) n')"
        using Suc.IH [OF _ n(2)] by blast
      from d have "d_isDirectory entry" by (simp add: descends_def)
      with j(3) e Some have "(path r, depth + Suc j) \<in> set (entryDepths h dirPath depth n)"
        unfolding n(1) by force
      with j(1,2) show ?thesis by (intro exI [of _ "Suc j"]) simp
    qed
  qed
qed

lemma unique_depth:
  "distinct (map fst xs) \<Longrightarrow> (p, j) \<in> set xs \<Longrightarrow> (p, k) \<in> set xs \<Longrightarrow> j = k"
  by (rule eq_key_imp_eq_value)

lemma entryDepths_paths:
  "map fst (entryDepths h dirPath depth n) = allPaths h dirPath n"
proof (induction n arbitrary: dirPath depth)
  case 0
  show ?case by simp
next
  case (Suc n)
  show ?case
  proof (cases "readdir h dirPath")
    case None
    then show ?thesis by simp
  next
    case (Some entries)
    have e: "map fst ((join h dirPath (d_name entry), Suc depth)
            # (if d_isDirectory entry
               then entryDepths h (join h dirPath (d_name entry)) (Suc depth) n else []))
        = join h dirPath (d_name entry)
            # (if d_isDirectory entry then allPaths h (join h dirPath (d_name entry)) n else [])"
      for entry
      by (simp add: Suc.IH)
    show ?thesis
      unfolding entryDepths.simps allPaths.simps Some option.case map_concat map_map o_def e ..
  qed
qed

lemma entryDepths_roots:
  "map fst (concat (map (\<lambda>root. entryDepths h root 0 n) searchPaths)) =
   concat (map (\<lambda>root. allPaths h root n) searchPaths)"
  by (simp add: map_concat o_def entryDepths_paths)

lemma returned_depth_at_most_six:
  assumes tree: "distinct (concat (map (\<lambda>root. allPaths h root n) searchPaths))"
    and n: "6 \<le> n"
    and r: "r \<in> set (searchFileSystem h query searchPaths maxResults includeHidden excludePatterns)"
    and root: "root \<in> set searchPaths"
    and k: "(path r, k) \<in> set (entryDepths h root 0 n)"
  shows "k \<le> 6"
proof -
  let ?all = "concat (map (\<lambda>root. entryDepths h root 0 n) searchPaths)"
  from r obtain root' where r': "root' \<in> set searchPaths"
    "r \<in> set (walk h root' (toLowerCase query) includeHidden excludePatterns 6)"
    using in_searchFileSystem by blast
  then obtain j where j: "j \<le> 6" "(path r, 0 + j) \<in> set (entryDepths h root' 0 n)"
    using walk_entryDepths [OF r'(2) n] by blast
  from j(2) r'(1) have "(path r, j) \<in> set ?all" by auto
  moreover from k root have "(path r, k) \<in> set ?all" by auto
  moreover have "distinct (map fst ?all)"
    using tree by (simp only: entryDepths_roots)
  ultimately have "j = k" by (rule unique_depth [rotated 1])
  with j(1) show ?thesis by simp
qed

lemma searchWithEverything_never_raises:
  "\<exists>files. searchWithEverything h query maxResults = Inr files"
  by (simp add: searchWithEverything_def split: sum.split)

lemma everything_failure_gives_nothing:
  "exec h (EsSearch maxResults query) = Inl e \<Longrightarrow> trim query \<noteq> [] \<Longrightarrow>
   searchFiles h True searchPaths maxResults includeHidden excludePatterns query = []"
  by (simp add: searchFiles_def searchWithEverything_def runWindowsCommand_def)

subsection \<open>The claims about the search\<close>

text \<open>
  C1 (amended): the depth ceiling is 6.  Every item returned is a match at a depth
  between 1 and 6 below one of the roots (root = depth 0); when fewer than \<open>maxResults\<close>
  items are returned, every match at those depths is among them; and when no path is
  listed twice below the roots (in particular no root is repeated or lies below another
  root), no item returned has the path of an entry at a depth above 6 below a root.  The
  walk reads the directories at depths 0 to 5 below each root, so it sees the entries at
  depths 1 to 6.
\<close>

theorem depth_ceiling_six:
  "(\<forall>r \<in> set (searchFileSystem h query searchPaths maxResults includeHidden excludePatterns).
      \<exists>root \<in> set searchPaths. \<exists>k. 1 \<le> k \<and> k \<le> 6 \<and>
        r \<in> set (matchesAt h root (toLowerCase query) includeHidden excludePatterns k))
   \<and> (length (searchFileSystem h query searchPaths maxResults includeHidden excludePatterns)
         < nat maxResults \<longrightarrow>
       (\<forall>root \<in> set searchPaths. \<forall>k. 1 \<le> k \<and> k \<le> 6 \<longrightarrow>
          set (matchesAt h root (toLowerCase query) includeHidden excludePatterns k)
          \<subseteq> set (searchFileSystem h query searchPaths maxResults includeHidden excludePatterns)))
   \<and> (distinct (concat (map (\<lambda>root. allPaths h root n) searchPaths)) \<and> 6 \<le> n \<longrightarrow>
       (\<forall>r \<in> set (searchFileSystem h query searchPaths maxResults includeHidden excludePatterns).
          \<forall>root \<in> set searchPaths. \<forall>k.
            (path r, k) \<in> set (entryDepths h root 0 n) \<longrightarrow> k \<le> 6))"
proof (intro conjI)
  show "\<forall>r \<in> set (searchFileSystem h query searchPaths maxResults includeHidden excludePatterns).
      \<exists>root \<in> set searchPaths. \<exists>k. 1 \<le> k \<and> k \<le> 6 \<and>
        r \<in> set (matchesAt h root (toLowerCase query) includeHidden excludePatterns k)"
  proof
    fix r
    assume "r \<in> set (searchFileSystem h query searchPaths maxResults includeHidden excludePatterns)"
    then obtain root where "root \<in> set searchPaths"
      "r \<in> set (walk h root (toLowerCase query) includeHidden excludePatterns 6)"
      using in_searchFileSystem by blast
    then show "\<exists>root \<in> set searchPaths. \<exists>k. 1 \<le> k \<and> k \<le> 6 \<and>
          r \<in> set (matchesAt h root (toLowerCase query) includeHidden excludePatterns k)"
      using walk_levels by blast
  qed
next
  show "length (searchFileSystem h query searchPaths maxResults includeHidden excludePatterns)
         < nat maxResults \<longrightarrow>
       (\<forall>root \<in> set searchPaths. \<forall>k. 1 \<le> k \<and> k \<le> 6 \<longrightarrow>
          set (matchesAt h root (toLowerCase query) includeHidden excludePatterns k)
          \<subseteq> set (searchFileSystem h query searchPaths maxResults includeHidden excludePatterns))"
  proof (intro impI ballI allI)
    fix root and k :: nat
    assume cut: "length (searchFileSystem h query searchPaths maxResults includeHidden
          excludePatterns) < nat maxResults"
      and root: "root \<in> set searchPaths" and k: "1 \<le> k \<and> k \<le> 6"
    show "set (matchesAt h root (toLowerCase query) includeHidden excludePatterns k)
            \<subseteq> set (searchFileSystem h query searchPaths maxResults includeHidden excludePatterns)"
    proof
      fix r
      assume "r \<in> set (matchesAt h root (toLowerCase query) includeHidden excludePatterns k)"
      with k have "r \<in> set (walk h root (toLowerCase query) includeHidden excludePatterns 6)"
        using walk_levels by blast
      with root show "r \<in> set (searchFileSystem h query searchPaths maxResults includeHidden
          excludePatterns)"
        unfolding searchFileSystem_uncut [OF cut] by auto
    qed
  qed
next
  show "distinct (concat (map (\<lambda>root. allPaths h root n) searchPaths)) \<and> 6 \<le> n \<longrightarrow>
       (\<forall>r \<in> set (searchFileSystem h query searchPaths maxResults includeHidden excludePatterns).
          \<forall>root \<in> set searchPaths. \<forall>k.
            (path r, k) \<in> set (entryDepths h root 0 n) \<longrightarrow> k \<le> 6)"
    using returned_depth_at_most_six by blast
qed

theorem depth_ceiling_six_witness:
  "length (searchFileSystem deepTree ''hit'' [''R''] 100 False []) < nat 100
   \<and> fileItem ''R/d1/d2/d3/d4/d5/hit6'' ''hit6''
       \<in> set (searchFileSystem deepTree ''hit'' [''R''] 100 False [])
   \<and> distinct (concat (map (\<lambda>root. allPaths deepTree root 7) [''R'']))
   \<and> (''R/d1/d2/d3/d4/d5/d6/hit7'', 7) \<in> set (entryDepths deepTree ''R'' 0 7)
   \<and> list_all (\<lambda>r. path r \<noteq> ''R/d1/d2/d3/d4/d5/d6/hit7'')
        (searchFileSystem deepTree ''hit'' [''R''] 100 False [])"
proof -
  note t = depth_ceiling_six [of deepTree "''hit''" "[''R'']" 100 False "[]" 7]
  have lower: "toLowerCase ''hit'' = ''hit''"
    by code_simp
  have cut: "length (searchFileSystem deepTree ''hit'' [''R''] 100 False []) < nat 100"
    by code_simp
  have six: "matchesAt deepTree ''R'' ''hit'' False [] 6 = [fileItem ''R/d1/d2/d3/d4/d5/hit6'' ''hit6'']"
    by code_simp
  have "set (matchesAt deepTree ''R'' (toLowerCase ''hit'') False [] 6)
      \<subseteq> set (searchFileSystem deepTree ''hit'' [''R''] 100 False [])"
    using t cut by simp
  then have a: "fileItem ''R/d1/d2/d3/d4/d5/hit6'' ''hit6''
       \<in> set (searchFileSystem deepTree ''hit'' [''R''] 100 False [])"
    by (simp add: lower six)
  have tree: "distinct (concat (map (\<lambda>root. allPaths deepTree root 7) [''R'']))"
    by code_simp
  have seven: "(''R/d1/d2/d3/d4/d5/d6/hit7'', 7) \<in> set (entryDepths deepTree ''R'' 0 7)"
    by code_simp
  have "\<forall>r \<in> set (searchFileSystem deepTree ''hit'' [''R''] 100 False []).
      \<forall>root \<in> set [''R'']. \<forall>k. (path r, k) \<in> set (entryDepths deepTree root 0 7) \<longrightarrow> k \<le> 6"
    using t tree by simp
  then have "\<forall>r \<in> set (searchFileSystem deepTree ''hit'' [''R''] 100 False []).
      path r \<noteq> ''R/d1/d2/d3/d4/d5/d6/hit7''"
    using seven by fastforce
  then have b: "list_all (\<lambda>r. path r \<noteq> ''R/d1/d2/d3/d4/d5/d6/hit7'')
        (searchFileSystem deepTree ''hit'' [''R''] 100 False [])"
    by (simp only: list_all_iff)
  from cut a tree seven b show ?thesis by blast
qed

text \<open>
  C1 as stated fails: on \<open>deepTree\<close> the file \<open>hit6\<close> is a match at depth 6 below the
  root \<open>R\<close> (six names below it), and the search returns it.
\<close>

theorem depth_six_match_returned:
  "matchesAt deepTree ''R'' ''hit'' False [] 6 = [fileItem ''R/d1/d2/d3/d4/d5/hit6'' ''hit6'']
   \<and> (''R/d1/d2/d3/d4/d5/hit6'', 6) \<in> set (entryDepths deepTree ''R'' 0 6)
   \<and> searchFileSystem deepTree ''hit'' [''R''] 100 False [] =
       [fileItem ''R/d1/d2/d3/d4/hit5'' ''hit5'', fileItem ''R/d1/d2/d3/d4/d5/hit6'' ''hit6'']"
  by code_simp

text \<open>
  The condition on the roots is needed: a root below another root is walked from depth 0
  again, so the walk of \<open>R/d1\<close> returns \<open>hit7\<close>, which lies at depth 7 below \<open>R\<close>.
\<close>

lemma nested_root_reaches_deeper:
  "map path (searchFileSystem deepTree ''hit'' [''R'', ''R/d1''] 100 False []) =
     [''R/d1/d2/d3/d4/hit5'', ''R/d1/d2/d3/d4/d5/hit6'', ''R/d1/d2/d3/d4/hit5'',
      ''R/d1/d2/d3/d4/d5/hit6'', ''R/d1/d2/d3/d4/d5/d6/hit7'']
   \<and> (''R/d1/d2/d3/d4/d5/d6/hit7'', 7) \<in> set (entryDepths deepTree ''R'' 0 7)
   \<and> \<not> distinct (concat (map (\<lambda>root. allPaths deepTree root 7) [''R'', ''R/d1'']))"
  by code_simp

text \<open>
  C2: at the failing input the shell command of the accelerated search fails, and
  \<open>searchFiles\<close> with \<open>useEverything\<close> on returns no item, where the recursive walk finds
  four: \<open>searchWithEverything\<close> catches the failure itself and returns the empty list,
  so the fallback in \<open>searchFiles\<close> never runs.
\<close>

theorem everything_failure_not_recovered:
  "exec plainHost (EsSearch 100 ''conf'') = Inl ExecError
   \<and> searchFiles plainHost True [''R''] 100 False [] ''conf'' = []
   \<and> map path (searchFileSystem plainHost ''conf'' [''R''] 100 False []) =
       [''R/conf.txt'', ''R/confdir'', ''R/confdir/conf.json'', ''R/zconf'']"
  by code_simp

text \<open>
  C3: \<open>searchFileSystem\<close> returns at most \<open>maxResults\<close> items, whatever the roots, the
  query and the file system are (none at all when \<open>maxResults\<close> is negative).
\<close>

theorem search_at_most_maxResults:
  "length (searchFileSystem h query searchPaths maxResults includeHidden excludePatterns)
     \<le> nat maxResults"
  by (simp add: searchFileSystem_walk)

text \<open>
  C4: at the failing input the accelerated path is on and \<open>includeHidden\<close> is off, and
  \<open>searchFiles\<close> returns the hidden file \<open>.env\<close> that the search tool reports:
  \<open>searchWithEverything\<close> records \<open>isHidden\<close> and filters nothing, where the recursive walk
  skips the hidden entries.
\<close>

theorem everything_returns_hidden:
  "map name (searchFiles esHost True [''R''] 100 False [] ''env'') = [''.env'']
   \<and> map isHidden (searchFiles esHost True [''R''] 100 False [] ''env'') = [True]"
  by code_simp

text \<open>
  The recursive walk does leave the hidden entries out: with \<open>includeHidden\<close> off, no item
  that \<open>searchFileSystem\<close> returns has a name starting with a dot, wherever the entry lies.
\<close>

theorem hidden_never_returned_by_walk:
  "\<forall>r \<in> set (searchFileSystem h query searchPaths maxResults False excludePatterns).
     \<not> startsWithDot (name r) \<and> \<not> isHidden r"
  using in_searchFileSystem walk_not_hidden by blast

theorem hidden_never_returned_by_walk_witness:
  "map name (searchFileSystem plainHost ''conf'' [''R''] 100 False []) =
     [''conf.txt'', ''confdir'', ''conf.json'', ''zconf'']
   \<and> list_all (\<lambda>r. \<not> startsWithDot (name r) \<and> \<not> isHidden r)
        (searchFileSystem plainHost ''conf'' [''R''] 100 False [])"
proof -
  have a: "map name (searchFileSystem plainHost ''conf'' [''R''] 100 False []) =
     [''conf.txt'', ''confdir'', ''conf.json'', ''zconf'']"
    by code_simp
  have b: "list_all (\<lambda>r. \<not> startsWithDot (name r) \<and> \<not> isHidden r)
        (searchFileSystem plainHost ''conf'' [''R''] 100 False [])"
    using hidden_never_returned_by_walk [of plainHost "''conf''" "[''R'']" 100 "[]"]
    by (simp only: list_all_iff)
  from a b show ?thesis by blast
qed

text \<open>
  C9: a directory that cannot be read is searched like an empty one, so the search
  returns what it finds everywhere else; and a root that cannot be read adds nothing
  and takes nothing away from the roots before and after it.
\<close>

theorem unreadable_directory_contained:
  "searchFileSystem (unreadable h d) query searchPaths maxResults includeHidden excludePatterns =
   searchFileSystem (emptied h d) query searchPaths maxResults includeHidden excludePatterns
   \<and> (readdir h root = None \<longrightarrow>
        searchFileSystem h query (before @ root # after) maxResults includeHidden excludePatterns =
        searchFileSystem h query (before @ after) maxResults includeHidden excludePatterns)"
  by (simp add: searchFileSystem_walk walk_unreadable_as_empty walk_unreadable_root)

theorem unreadable_directory_contained_witness:
  "readdir plainHost ''missing'' = None \<and> readdir plainHost ''R/locked'' = None
   \<and> map path (searchFileSystem plainHost ''conf'' [''missing'', ''R'', ''S''] 100 False []) =
       [''R/conf.txt'', ''R/confdir'', ''R/confdir/conf.json'', ''R/zconf'', ''S/conf.s'']
   \<and> map path (searchFileSystem (unreadable plainHost ''R/confdir'') ''conf'' [''R'', ''S'']
         100 False []) =
       [''R/conf.txt'', ''R/confdir'', ''R/zconf'', ''S/conf.s'']"
proof -
  have a: "readdir plainHost ''missing'' = None" "readdir plainHost ''R/locked'' = None"
    by code_simp+
  note t = unreadable_directory_contained [where h = plainHost and d = "''R/confdir''"
      and query = "''conf''" and searchPaths = "[''R'', ''S'']" and maxResults = 100
      and includeHidden = False and excludePatterns = "[]" and root = "''missing''"
      and before = "[]" and after = "[''R'', ''S'']"]
  have "searchFileSystem plainHost ''conf'' [''missing'', ''R'', ''S''] 100 False [] =
      searchFileSystem plainHost ''conf'' [''R'', ''S''] 100 False []"
    using t a(1) by simp
  moreover have "map path (searchFileSystem plainHost ''conf'' [''R'', ''S''] 100 False []) =
       [''R/conf.txt'', ''R/confdir'', ''R/confdir/conf.json'', ''R/zconf'', ''S/conf.s'']"
    by code_simp
  ultimately have b: "map path (searchFileSystem plainHost ''conf'' [''missing'', ''R'', ''S''] 100
      False []) = [''R/conf.txt'', ''R/confdir'', ''R/confdir/conf.json'', ''R/zconf'', ''S/conf.s'']"
    by simp
  have "searchFileSystem (unreadable plainHost ''R/confdir'') ''conf'' [''R'', ''S''] 100 False [] =
      searchFileSystem (emptied plainHost ''R/confdir'') ''conf'' [''R'', ''S''] 100 False []"
    using t by blast
  moreover have "map path (searchFileSystem (emptied plainHost ''R/confdir'') ''conf'' [''R'', ''S'']
         100 False []) = [''R/conf.txt'', ''R/confdir'', ''R/zconf'', ''S/conf.s'']"
    by code_simp
  ultimately have c: "map path (searchFileSystem (unreadable plainHost ''R/confdir'') ''conf''
      [''R'', ''S''] 100 False []) = [''R/conf.txt'', ''R/confdir'', ''R/zconf'', ''S/conf.s'']"
    by simp
  from a b c show ?thesis by blast
qed




end
